theory Spec2Isabelle
  imports Main "HOL-Library.Word" "HOL-Library.Sublist"
begin

section \<open>Data model of the websocket hub\<close>

text \<open>
  The embedding follows \<^verbatim>\<open>package websocket\<close> (the hub with its \<^verbatim>\<open>Run\<close> loop,
  \<^verbatim>\<open>JoinChatRoom\<close>, \<^verbatim>\<open>LeaveChatRoom\<close>, \<^verbatim>\<open>BroadcastToChat\<close>, \<^verbatim>\<open>Client.ReadPump\<close>,
  \<^verbatim>\<open>Client.WritePump\<close>) and \<^verbatim>\<open>WebSocketHandler.HandleWebSocket\<close>, which creates the
  clients.

  \<^item> Go's \<^verbatim>\<open>uint\<close> is a 64-bit word; the hub only compares identifiers and uses them
    as map keys.
  \<^item> A \<^verbatim>\<open>*Client\<close> is a reference into an explicit heap: rooms are keyed by the
    pointer, the live table by the client's \<^verbatim>\<open>ID\<close>, so two clients with one identity
    are different objects.
  \<^item> A Go \<^verbatim>\<open>map[K]bool\<close> that only ever stores \<^verbatim>\<open>true\<close> is the list of its keys,
    without repetition; \<^verbatim>\<open>range\<close> visits the keys in the order of the list. Go
    leaves that order open: the section on the order of \<^verbatim>\<open>range\<close> shows that the
    loops do not depend on it.
  \<^item> A channel is its buffer, its capacity and its closed flag. A panic of the Go
    runtime and a goroutine that would have to wait are values of type \<open>stop\<close>.
  \<^item> Every \<^verbatim>\<open>log.Printf\<close> appends one entry to \<open>logs\<close>, one constructor per call
    site.
  \<^item> \<^verbatim>\<open>h.mu\<close> makes each operation atomic; the model runs them one at a time, in
    any order (the events of a run).
  \<^item> The network connection \<^verbatim>\<open>Conn\<close> is outside the model: what the reader gets
    from it and whether a write succeeds are inputs.
\<close>

type_synonym uint = "64 word"
type_synonym bytes = string
type_synonym client_ref = nat

record 'a chan =
  buf :: "'a list"
  cap :: nat
  closed :: bool

datatype stop =
    PanicSendOnClosedChannel
  | PanicCloseOfClosedChannel
  | PanicNilPointer
  | WouldBlock

record Client =
  ID :: uint
  Send :: "bytes chan"
  ChatRooms :: "uint list"

record BroadcastMessage =
  ChatID :: uint
  Message :: bytes
  Exclude :: uint

record WSMessage =
  Type :: string
  WSChatID :: uint
  Payload :: bytes

datatype log_entry =
    LogConnected uint
  | LogDisconnected uint
  | LogJoined uint uint
  | LogLeft uint uint
  | LogUnmarshalError
  | LogWebSocketError
  | LogWriteError

text \<open>
  The hub (\<open>clients\<close>, \<open>chatRooms\<close>, \<open>broadcast\<close>) together with the heap of client
  objects and the log. \<open>allocated\<close> counts the clients created so far: the references
  below it are the live objects. \<^verbatim>\<open>h.register\<close> and \<^verbatim>\<open>h.unregister\<close> are unbuffered,
  so sending on them and \<^verbatim>\<open>Run\<close> receiving is one step and they hold no state.
\<close>

record world =
  clients :: "uint \<rightharpoonup> client_ref"
  chatRooms :: "uint \<rightharpoonup> client_ref list"
  broadcast :: "BroadcastMessage chan"
  heap :: "client_ref \<Rightarrow> Client"
  allocated :: nat
  logs :: "log_entry list"

section \<open>Channels and key sets\<close>

definition make_chan :: "nat \<Rightarrow> 'a chan" where
  "make_chan n = \<lparr>buf = [], cap = n, closed = False\<rparr>"

text \<open>\<^verbatim>\<open>close(ch)\<close>: closing a closed channel panics.\<close>

definition chan_close :: "'a chan \<Rightarrow> stop + 'a chan" where
  "chan_close ch =
     (if closed ch then Inl PanicCloseOfClosedChannel else Inr (ch\<lparr>closed := True\<rparr>))"

text \<open>
  \<^verbatim>\<open>select { case ch <- v: default: }\<close>: a send on a closed channel panics; otherwise
  the value is buffered when there is room (\<open>Some\<close> of the new channel) and the
  default branch runs when there is none (\<open>None\<close>). A receiver that waits on the
  empty channel gets the value at once, which is the buffering followed by its
  receive.
\<close>

definition select_send :: "'a chan \<Rightarrow> 'a \<Rightarrow> stop + 'a chan option" where
  "select_send ch v =
     (if closed ch then Inl PanicSendOnClosedChannel
      else if length (buf ch) < cap ch then Inr (Some (ch\<lparr>buf := buf ch @ [v]\<rparr>))
      else Inr None)"

text \<open>\<^verbatim>\<open>ch <- v\<close>: the sender waits while the buffer is full.\<close>

definition chan_send :: "'a chan \<Rightarrow> 'a \<Rightarrow> stop + 'a chan" where
  "chan_send ch v =
     (if closed ch then Inl PanicSendOnClosedChannel
      else if length (buf ch) < cap ch then Inr (ch\<lparr>buf := buf ch @ [v]\<rparr>)
      else Inl WouldBlock)"

text \<open>
  \<^verbatim>\<open><-ch\<close>, as \<^verbatim>\<open>range ch\<close> does it: the oldest buffered value; \<open>None\<close> once the
  channel is closed and drained; the receiver waits on an open, empty channel.
\<close>

definition chan_recv :: "'a chan \<Rightarrow> stop + ('a option \<times> 'a chan)" where
  "chan_recv ch =
     (case buf ch of
        v # rest \<Rightarrow> Inr (Some v, ch\<lparr>buf := rest\<rparr>)
      | [] \<Rightarrow> if closed ch then Inr (None, ch) else Inl WouldBlock)"

text \<open>\<^verbatim>\<open>m[k] = true\<close> and \<^verbatim>\<open>delete(m, k)\<close> on the key list of a \<^verbatim>\<open>map[K]bool\<close>.\<close>

definition key_add :: "'a \<Rightarrow> 'a list \<Rightarrow> 'a list" where
  "key_add k ks = (if k \<in> set ks then ks else ks @ [k])"

definition key_delete :: "'a \<Rightarrow> 'a list \<Rightarrow> 'a list" where
  "key_delete k ks = removeAll k ks"

section \<open>The hub\<close>

text \<open>
  \<^verbatim>\<open>NewHub\<close>: empty tables and a broadcast channel of capacity 256. No client exists
  yet: the heap holds a client without rooms at every reference, and
  \<^verbatim>\<open>HandleWebSocket\<close> overwrites it at the reference it allocates.
\<close>

definition NewHub :: world where
  "NewHub =
     \<lparr>clients = Map.empty, chatRooms = Map.empty, broadcast = make_chan 256,
      heap = (\<lambda>_. \<lparr>ID = 0, Send = make_chan 0, ChatRooms = []\<rparr>),
      allocated = 0, logs = []\<rparr>"

text \<open>\<^verbatim>\<open>Run\<close>, \<^verbatim>\<open>case client := <-h.register\<close>.\<close>

definition Run_register :: "client_ref \<Rightarrow> world \<Rightarrow> world" where
  "Run_register client s =
     s\<lparr>clients := (clients s)(ID (heap s client) \<mapsto> client),
       logs := logs s @ [LogConnected (ID (heap s client))]\<rparr>"

text \<open>
  The loop \<^verbatim>\<open>for chatID := range client.ChatRooms\<close> of the unregister case, on the
  room table.
\<close>

fun remove_from_rooms ::
  "uint list \<Rightarrow> client_ref \<Rightarrow> (uint \<rightharpoonup> client_ref list) \<Rightarrow> (uint \<rightharpoonup> client_ref list)" where
  "remove_from_rooms [] client rooms = rooms"
| "remove_from_rooms (chatID # rest) client rooms =
     (case rooms chatID of
        None \<Rightarrow> remove_from_rooms rest client rooms
      | Some room \<Rightarrow>
          (if key_delete client room = []
           then remove_from_rooms rest client (rooms(chatID := None))
           else remove_from_rooms rest client (rooms(chatID \<mapsto> key_delete client room))))"

text \<open>\<^verbatim>\<open>Run\<close>, \<^verbatim>\<open>case client := <-h.unregister\<close>.\<close>

definition Run_unregister :: "client_ref \<Rightarrow> world \<Rightarrow> stop + world" where
  "Run_unregister client s =
     (case clients s (ID (heap s client)) of
        None \<Rightarrow> Inr (s\<lparr>logs := logs s @ [LogDisconnected (ID (heap s client))]\<rparr>)
      | Some _ \<Rightarrow>
          (case chan_close (Send (heap s client)) of
             Inl e \<Rightarrow> Inl e
           | Inr ch \<Rightarrow>
               Inr (s\<lparr>clients := (clients s)(ID (heap s client) := None),
                      heap := (heap s)(client := (heap s client)\<lparr>Send := ch\<rparr>),
                      chatRooms :=
                        remove_from_rooms (ChatRooms (heap s client)) client (chatRooms s),
                      logs := logs s @ [LogDisconnected (ID (heap s client))]\<rparr>)))"

text \<open>
  The loop \<^verbatim>\<open>for client := range room\<close> of the broadcast case: the non-blocking send,
  and in its default branch \<^verbatim>\<open>close(client.Send)\<close> and \<^verbatim>\<open>delete(h.clients, client.ID)\<close>.
  The room itself is not touched.
\<close>

fun broadcast_range :: "client_ref list \<Rightarrow> BroadcastMessage \<Rightarrow> world \<Rightarrow> stop + world" where
  "broadcast_range [] message s = Inr s"
| "broadcast_range (client # rest) message s =
     (if ID (heap s client) \<noteq> Exclude message then
        (case select_send (Send (heap s client)) (Message message) of
           Inl e \<Rightarrow> Inl e
         | Inr (Some ch) \<Rightarrow>
             broadcast_range rest message
               (s\<lparr>heap := (heap s)(client := (heap s client)\<lparr>Send := ch\<rparr>)\<rparr>)
         | Inr None \<Rightarrow>
             (case chan_close (Send (heap s client)) of
                Inl e \<Rightarrow> Inl e
              | Inr ch \<Rightarrow>
                  broadcast_range rest message
                    (s\<lparr>heap := (heap s)(client := (heap s client)\<lparr>Send := ch\<rparr>),
                       clients := (clients s)(ID (heap s client) := None)\<rparr>)))
      else broadcast_range rest message s)"

text \<open>The body of \<^verbatim>\<open>case message := <-h.broadcast\<close>, for the envelope received.\<close>

definition deliver :: "BroadcastMessage \<Rightarrow> world \<Rightarrow> stop + world" where
  "deliver message s =
     (case chatRooms s (ChatID message) of
        None \<Rightarrow> Inr s
      | Some room \<Rightarrow> broadcast_range room message s)"

text \<open>
  \<^verbatim>\<open>Run\<close>, \<^verbatim>\<open>case message := <-h.broadcast\<close>: the case is ready when the channel holds
  an envelope; the oldest one is taken.
\<close>

definition Run_broadcast :: "world \<Rightarrow> stop + world" where
  "Run_broadcast s =
     (case buf (broadcast s) of
        [] \<Rightarrow> Inl WouldBlock
      | message # rest \<Rightarrow> deliver message (s\<lparr>broadcast := (broadcast s)\<lparr>buf := rest\<rparr>\<rparr>))"

definition JoinChatRoom :: "client_ref \<Rightarrow> uint \<Rightarrow> world \<Rightarrow> world" where
  "JoinChatRoom client chatID s =
     s\<lparr>chatRooms :=
         (chatRooms s)(chatID \<mapsto>
            key_add client (case chatRooms s chatID of None \<Rightarrow> [] | Some room \<Rightarrow> room)),
       heap :=
         (heap s)(client :=
            (heap s client)\<lparr>ChatRooms := key_add chatID (ChatRooms (heap s client))\<rparr>),
       logs := logs s @ [LogJoined (ID (heap s client)) chatID]\<rparr>"

definition LeaveChatRoom :: "client_ref \<Rightarrow> uint \<Rightarrow> world \<Rightarrow> world" where
  "LeaveChatRoom client chatID s =
     s\<lparr>chatRooms :=
         (case chatRooms s chatID of
            None \<Rightarrow> chatRooms s
          | Some room \<Rightarrow>
              (if key_delete client room = [] then (chatRooms s)(chatID := None)
               else (chatRooms s)(chatID \<mapsto> key_delete client room))),
       heap :=
         (heap s)(client :=
            (heap s client)\<lparr>ChatRooms := key_delete chatID (ChatRooms (heap s client))\<rparr>),
       logs := logs s @ [LogLeft (ID (heap s client)) chatID]\<rparr>"

definition BroadcastToChat :: "uint \<Rightarrow> bytes \<Rightarrow> uint \<Rightarrow> world \<Rightarrow> stop + world" where
  "BroadcastToChat chatID message excludeUserID s =
     (case chan_send (broadcast s)
             \<lparr>ChatID = chatID, Message = message, Exclude = excludeUserID\<rparr> of
        Inl e \<Rightarrow> Inl e
      | Inr ch \<Rightarrow> Inr (s\<lparr>broadcast := ch\<rparr>))"

section \<open>Connections\<close>

text \<open>
  \<^verbatim>\<open>HandleWebSocket\<close> after a successful upgrade: a new client object with a send
  queue of capacity 256 and no rooms, handed to \<^verbatim>\<open>h.register\<close>. The new reference is
  \<open>allocated s\<close>. (When the upgrade fails the handler returns and nothing changes but
  the log.)
\<close>

definition HandleWebSocket :: "uint \<Rightarrow> world \<Rightarrow> world" where
  "HandleWebSocket userID s =
     Run_register (allocated s)
       (s\<lparr>heap := (heap s)(allocated s := \<lparr>ID = userID, Send = make_chan 256, ChatRooms = []\<rparr>),
          allocated := Suc (allocated s)\<rparr>)"

text \<open>
  One turn of \<^verbatim>\<open>WritePump\<close>'s \<^verbatim>\<open>for message := range c.Send\<close>: the receive, and the
  log entry when \<^verbatim>\<open>WriteMessage\<close> fails (\<open>written\<close> is whether it succeeds). The
  network connection itself is outside the model.
\<close>

definition WritePump_turn :: "client_ref \<Rightarrow> bool \<Rightarrow> world \<Rightarrow> stop + world" where
  "WritePump_turn c written s =
     (case chan_recv (Send (heap s c)) of
        Inl e \<Rightarrow> Inl e
      | Inr (None, ch) \<Rightarrow> Inr s
      | Inr (Some message, ch) \<Rightarrow>
          Inr (s\<lparr>heap := (heap s)(c := (heap s c)\<lparr>Send := ch\<rparr>),
                 logs := (if written then logs s else logs s @ [LogWriteError])\<rparr>))"

text \<open>
  The body of \<^verbatim>\<open>ReadPump\<close>'s loop for one frame that was read without error.
  \<open>unmarshal\<close> stands for \<^verbatim>\<open>json.Unmarshal\<close> into a \<^verbatim>\<open>WSMessage\<close> (\<open>None\<close>: it
  returned an error).
\<close>

definition ReadPump_frame ::
  "(bytes \<Rightarrow> WSMessage option) \<Rightarrow> client_ref \<Rightarrow> bytes \<Rightarrow> world \<Rightarrow> stop + world" where
  "ReadPump_frame unmarshal c message s =
     (case unmarshal message of
        None \<Rightarrow> Inr (s\<lparr>logs := logs s @ [LogUnmarshalError]\<rparr>)
      | Some wsMsg \<Rightarrow>
          (if Type wsMsg = ''join_chat'' then Inr (JoinChatRoom c (WSChatID wsMsg) s)
           else if Type wsMsg = ''leave_chat'' then Inr (LeaveChatRoom c (WSChatID wsMsg) s)
           else if Type wsMsg = ''typing'' then
             BroadcastToChat (WSChatID wsMsg) message (ID (heap s c)) s
           else if Type wsMsg = ''message_delivered'' then
             BroadcastToChat (WSChatID wsMsg) message (ID (heap s c)) s
           else if Type wsMsg = ''message_read'' then
             BroadcastToChat (WSChatID wsMsg) message (ID (heap s c)) s
           else Inr s))"

text \<open>
  What \<^verbatim>\<open>c.Conn.ReadMessage()\<close> returns: an error (with whether
  \<^verbatim>\<open>IsUnexpectedCloseError\<close> holds of it) or a frame.
\<close>

datatype read_result = ReadError bool | ReadFrame bytes

datatype pump_status = Reading | Exited

text \<open>
  \<^verbatim>\<open>ReadPump\<close> on the results of its successive reads. A read error leaves the loop,
  and the deferred function hands the client to \<^verbatim>\<open>h.unregister\<close>. When the results
  run out the reader is still in its loop, waiting for the next frame.
\<close>

fun ReadPump ::
  "(bytes \<Rightarrow> WSMessage option) \<Rightarrow> client_ref \<Rightarrow> read_result list \<Rightarrow> world
     \<Rightarrow> stop + (pump_status \<times> world)" where
  "ReadPump unmarshal c [] s = Inr (Reading, s)"
| "ReadPump unmarshal c (ReadError unexpected # rest) s =
     (case Run_unregister c
             (if unexpected then s\<lparr>logs := logs s @ [LogWebSocketError]\<rparr> else s) of
        Inl e \<Rightarrow> Inl e
      | Inr s' \<Rightarrow> Inr (Exited, s'))"
| "ReadPump unmarshal c (ReadFrame message # rest) s =
     (case ReadPump_frame unmarshal c message s of
        Inl e \<Rightarrow> Inl e
      | Inr s' \<Rightarrow> ReadPump unmarshal c rest s')"

section \<open>Runs of the system\<close>

text \<open>
  The steps the goroutines take on the shared state. Every operation dereferences its
  client, so a reference that names no allocated object stands for \<^verbatim>\<open>nil\<close>.
\<close>

datatype event =
    Connect uint
  | Unregister client_ref
  | Join client_ref uint
  | Leave client_ref uint
  | Submit uint bytes uint
  | Deliver
  | Drain client_ref bool

fun step :: "event \<Rightarrow> world \<Rightarrow> stop + world" where
  "step (Connect userID) s = Inr (HandleWebSocket userID s)"
| "step (Unregister c) s =
     (if c < allocated s then Run_unregister c s else Inl PanicNilPointer)"
| "step (Join c chatID) s =
     (if c < allocated s then Inr (JoinChatRoom c chatID s) else Inl PanicNilPointer)"
| "step (Leave c chatID) s =
     (if c < allocated s then Inr (LeaveChatRoom c chatID s) else Inl PanicNilPointer)"
| "step (Submit chatID message excludeUserID) s = BroadcastToChat chatID message excludeUserID s"
| "step Deliver s = Run_broadcast s"
| "step (Drain c written) s =
     (if c < allocated s then WritePump_turn c written s else Inl PanicNilPointer)"

fun run :: "event list \<Rightarrow> world \<Rightarrow> stop + world" where
  "run [] s = Inr s"
| "run (e # es) s = (case step e s of Inl x \<Rightarrow> Inl x | Inr s' \<Rightarrow> run es s')"

inductive reachable :: "world \<Rightarrow> bool" where
  reachable_NewHub: "reachable NewHub"
| reachable_step: "reachable s \<Longrightarrow> step e s = Inr s' \<Longrightarrow> reachable s'"

text \<open>The members of a room; an absent room has none.\<close>

definition members :: "world \<Rightarrow> uint \<Rightarrow> client_ref set" where
  "members s chatID = (case chatRooms s chatID of None \<Rightarrow> {} | Some room \<Rightarrow> set room)"

section \<open>Invariants of the reachable states\<close>

text \<open>
  What the non-blocking send of the broadcast loop does to a client that is not
  excluded: the payload is appended when the queue has room, and the queue is closed
  when it has none.
\<close>

definition offered :: "BroadcastMessage \<Rightarrow> Client \<Rightarrow> Client" where
  "offered m cl =
     (if length (buf (Send cl)) < cap (Send cl)
      then cl\<lparr>Send := (Send cl)\<lparr>buf := buf (Send cl) @ [Message m]\<rparr>\<rparr>
      else cl\<lparr>Send := (Send cl)\<lparr>closed := True\<rparr>\<rparr>)"

text \<open>
  Every room in the table is non-empty and without repetition, and its members are
  allocated clients that have the room in their \<^verbatim>\<open>ChatRooms\<close>.
\<close>

definition rooms_ok :: "world \<Rightarrow> bool" where
  "rooms_ok s \<longleftrightarrow>
     (\<forall>chatID room. chatRooms s chatID = Some room \<longrightarrow>
        room \<noteq> [] \<and> distinct room
        \<and> (\<forall>c \<in> set room. c < allocated s \<and> chatID \<in> set (ChatRooms (heap s c))))"

text \<open>
  An entry of the live table is filed under the identity of the client it holds, and
  that client's send queue is open.
\<close>

definition table_ok :: "world \<Rightarrow> bool" where
  "table_ok s \<longleftrightarrow>
     (\<forall>uid c. clients s uid = Some c \<longrightarrow>
        c < allocated s \<and> ID (heap s c) = uid \<and> \<not> closed (Send (heap s c)))"

text \<open>A client whose send queue is open is a member of every room it has joined.\<close>

definition joined_ok :: "world \<Rightarrow> bool" where
  "joined_ok s \<longleftrightarrow>
     (\<forall>c chatID. chatID \<in> set (ChatRooms (heap s c)) \<longrightarrow> \<not> closed (Send (heap s c))
        \<longrightarrow> c \<in> members s chatID)"

definition hub_inv :: "world \<Rightarrow> bool" where
  "hub_inv s \<longleftrightarrow> rooms_ok s \<and> table_ok s \<and> joined_ok s"

section \<open>States used as examples\<close>

text \<open>Two clients, identities 1 and 2, both in room 5; then "hello" delivered with 1 excluded.\<close>

definition two_in_room_5 :: world where
  "two_in_room_5 = projr (run [Connect 1, Join 0 5, Connect 2, Join 1 5] NewHub)"



text \<open>One client, identity 1, in room 5.\<close>

definition one_in_room_5 :: world where
  "one_in_room_5 = projr (run [Connect 1, Join 0 5] NewHub)"



text \<open>
  A stand-in for \<^verbatim>\<open>json.Unmarshal\<close> on three frames: one it rejects, one with a type
  the reader does not know, and a join of room 7.
\<close>

definition sample_unmarshal :: "bytes \<Rightarrow> WSMessage option" where
  "sample_unmarshal message =
     (if message = ''ping'' then Some \<lparr>Type = ''ping'', WSChatID = 5, Payload = []\<rparr>
      else if message = ''join'' then Some \<lparr>Type = ''join_chat'', WSChatID = 7, Payload = []\<rparr>
      else None)"

text \<open>
  The second client sends \<open>n\<close> typing notifications to room 5 and the hub delivers
  each of them, while nothing is taken from the first client's queue.
\<close>

fun typing_burst :: "nat \<Rightarrow> event list" where
  "typing_burst 0 = []"
| "typing_burst (Suc n) = Submit 5 ''typing'' 2 # Deliver # typing_burst n"

text \<open>
  The two clients in room 5 with \<open>n\<close> undelivered notifications in the first one's
  queue.
\<close>

definition queued :: "nat \<Rightarrow> world" where
  "queued n =
     two_in_room_5\<lparr>heap := (heap two_in_room_5)
        (0 := \<lparr>ID = 1, Send = \<lparr>buf = replicate n ''typing'', cap = 256, closed = False\<rparr>,
               ChatRooms = [5]\<rparr>)\<rparr>"

text \<open>Two envelopes for room 5 submitted by the first client and both delivered.\<close>

definition two_delivered :: world where
  "two_delivered =
     projr (run [Submit 5 ''m1'' 1, Submit 5 ''m2'' 1, Deliver, Deliver] two_in_room_5)"

section \<open>What a run puts on a send queue\<close>

text \<open>The envelopes handed to \<^verbatim>\<open>BroadcastToChat\<close> by the events of a run, in order.\<close>

fun submitted :: "event list \<Rightarrow> BroadcastMessage list" where
  "submitted [] = []"
| "submitted (Submit chatID message excludeUserID # es) =
     \<lparr>ChatID = chatID, Message = message, Exclude = excludeUserID\<rparr> # submitted es"
| "submitted (e # es) = submitted es"

text \<open>The envelope that a step of the hub loop takes from \<^verbatim>\<open>h.broadcast\<close>, if it takes one.\<close>

fun taken :: "event \<Rightarrow> world \<Rightarrow> BroadcastMessage list" where
  "taken Deliver s = (case buf (broadcast s) of [] \<Rightarrow> [] | message # rest \<Rightarrow> [message])"
| "taken e s = []"

text \<open>
  The broadcast loop, run for \<open>message\<close> in state \<open>s\<close>, reaches \<open>client\<close> and takes the
  send branch of its \<^verbatim>\<open>select\<close>.
\<close>

definition accepts :: "world \<Rightarrow> client_ref \<Rightarrow> BroadcastMessage \<Rightarrow> bool" where
  "accepts s client message \<longleftrightarrow>
     client \<in> members s (ChatID message) \<and> ID (heap s client) \<noteq> Exclude message
     \<and> length (buf (Send (heap s client))) < cap (Send (heap s client))"

text \<open>The envelopes whose payload a run puts on the send queue of \<open>client\<close>, in order.\<close>

fun enqueued :: "client_ref \<Rightarrow> event list \<Rightarrow> world \<Rightarrow> BroadcastMessage list" where
  "enqueued client [] s = []"
| "enqueued client (e # es) s =
     (case step e s of
        Inl _ \<Rightarrow> []
      | Inr s' \<Rightarrow> filter (accepts s client) (taken e s) @ enqueued client es s')"

section \<open>Evaluation and basic facts\<close>

lemmas hub_defs =
  NewHub_def HandleWebSocket_def Run_register_def Run_unregister_def JoinChatRoom_def
  LeaveChatRoom_def BroadcastToChat_def Run_broadcast_def deliver_def WritePump_turn_def
  make_chan_def chan_send_def chan_close_def chan_recv_def select_send_def key_add_def
  key_delete_def members_def


section \<open>The loops\<close>

lemma remove_from_rooms_apply:
  "remove_from_rooms cs c rooms k =
     (if k \<in> set cs then
        (case rooms k of None \<Rightarrow> None
         | Some r \<Rightarrow> if removeAll c r = [] then None else Some (removeAll c r))
      else rooms k)"
proof (induction cs arbitrary: rooms k)
  case Nil
  then show ?case by simp
next
  case (Cons a cs)
  show ?case
    by (cases "rooms a") (auto simp: Cons.IH key_delete_def split: option.splits)
qed

lemma broadcast_range_frame:
  "broadcast_range room m s = Inr s' \<Longrightarrow>
     chatRooms s' = chatRooms s \<and> allocated s' = allocated s \<and> logs s' = logs s
     \<and> broadcast s' = broadcast s"
proof (induction room arbitrary: s)
  case Nil
  then show ?case by simp
next
  case (Cons c rest)
  from Cons.prems obtain s1 where
    "broadcast_range rest m s1 = Inr s'" "chatRooms s1 = chatRooms s"
    "allocated s1 = allocated s" "logs s1 = logs s" "broadcast s1 = broadcast s"
    by (auto simp: select_send_def chan_close_def split: if_splits sum.splits option.splits)
  with Cons.IH show ?case by metis
qed

lemma broadcast_range_heap:
  "broadcast_range room m s = Inr s' \<Longrightarrow> distinct room \<Longrightarrow>
     heap s' c =
       (if c \<in> set room \<and> ID (heap s c) \<noteq> Exclude m then offered m (heap s c) else heap s c)"
proof (induction room arbitrary: s)
  case Nil
  then show ?case by simp
next
  case (Cons a rest)
  from Cons.prems(2) have d: "distinct rest" and na: "a \<notin> set rest" by simp_all
  show ?case
  proof (cases "ID (heap s a) \<noteq> Exclude m")
    case False
    with Cons.prems(1) have "broadcast_range rest m s = Inr s'" by simp
    from Cons.IH [OF this d] False show ?thesis by auto
  next
    case True
    from Cons.prems(1) True obtain s1 where
      s1: "broadcast_range rest m s1 = Inr s'" and
      h1: "heap s1 = (heap s)(a := offered m (heap s a))"
      by (auto simp: select_send_def chan_close_def offered_def
          split: if_splits sum.splits option.splits)
    from Cons.IH [OF s1 d] h1 na True show ?thesis by auto
  qed
qed

lemma broadcast_range_ok_iff:
  "distinct room \<Longrightarrow>
   (\<exists>s'. broadcast_range room m s = Inr s') \<longleftrightarrow>
     (\<forall>c \<in> set room. ID (heap s c) \<noteq> Exclude m \<longrightarrow> \<not> closed (Send (heap s c)))"
proof (induction room arbitrary: s)
  case Nil
  then show ?case by simp
next
  case (Cons a rest)
  then have d: "distinct rest" and na: "a \<notin> set rest" by simp_all
  show ?case
  proof (cases "ID (heap s a) \<noteq> Exclude m")
    case False
    then show ?thesis using Cons.IH [OF d, of s] by simp
  next
    case True
    show ?thesis
    proof (cases "closed (Send (heap s a))")
      case True
      with \<open>ID (heap s a) \<noteq> Exclude m\<close> show ?thesis by (auto simp: select_send_def)
    next
      case False
      define s1 where "s1 = (if length (buf (Send (heap s a))) < cap (Send (heap s a))
        then s\<lparr>heap := (heap s)(a := offered m (heap s a))\<rparr>
        else s\<lparr>heap := (heap s)(a := offered m (heap s a)), clients := (clients s)(ID (heap s a) := None)\<rparr>)"
      have e: "broadcast_range (a # rest) m s = broadcast_range rest m s1"
        using True False by (simp add: s1_def select_send_def chan_close_def offered_def)
      have h: "\<forall>c \<in> set rest. heap s1 c = heap s c" using na by (auto simp: s1_def)
      show ?thesis unfolding e using Cons.IH [OF d, of s1] h True False by auto
    qed
  qed
qed

lemma broadcast_range_clients:
  "broadcast_range room m s = Inr s' \<Longrightarrow> distinct room \<Longrightarrow>
     clients s' uid =
       (if \<exists>c \<in> set room. ID (heap s c) = uid \<and> uid \<noteq> Exclude m
             \<and> \<not> length (buf (Send (heap s c))) < cap (Send (heap s c))
        then None else clients s uid)"
proof (induction room arbitrary: s)
  case Nil
  then show ?case by simp
next
  case (Cons a rest)
  from Cons.prems(2) have d: "distinct rest" and na: "a \<notin> set rest" by simp_all
  show ?case
  proof (cases "ID (heap s a) \<noteq> Exclude m")
    case False
    with Cons.prems(1) have "broadcast_range rest m s = Inr s'" by simp
    from Cons.IH [OF this d] False show ?thesis by auto
  next
    case True
    from Cons.prems(1) True obtain s1 where
      s1: "broadcast_range rest m s1 = Inr s'" and
      h1: "heap s1 = (heap s)(a := offered m (heap s a))" and
      c1: "clients s1 = (if length (buf (Send (heap s a))) < cap (Send (heap s a)) then clients s
             else (clients s)(ID (heap s a) := None))"
      by (auto simp: select_send_def chan_close_def offered_def
          split: if_splits sum.splits option.splits)
    have h: "\<forall>c \<in> set rest. heap s1 c = heap s c" using na h1 by auto
    from Cons.IH [OF s1 d, of ] h c1 True show ?thesis by auto
  qed
qed

section \<open>Preservation of the invariants\<close>

lemma hub_inv_NewHub: "hub_inv NewHub"
  by (simp add: hub_inv_def rooms_ok_def table_ok_def joined_ok_def NewHub_def)

lemma hub_inv_HandleWebSocket:
  assumes "hub_inv s"
  shows "hub_inv (HandleWebSocket userID s)"
proof -
  from assms have r: "rooms_ok s" and t: "table_ok s" and j: "joined_ok s"
    by (simp_all add: hub_inv_def)
  have "rooms_ok (HandleWebSocket userID s)"
    using r unfolding rooms_ok_def HandleWebSocket_def Run_register_def
    by (auto simp: less_Suc_eq)
  moreover have "table_ok (HandleWebSocket userID s)"
    using t unfolding table_ok_def HandleWebSocket_def Run_register_def
    by (auto simp: less_Suc_eq make_chan_def)
  moreover have "joined_ok (HandleWebSocket userID s)"
    using j unfolding joined_ok_def HandleWebSocket_def Run_register_def members_def
    by auto
  ultimately show ?thesis by (simp add: hub_inv_def)
qed

lemma distinct_key_add: "distinct ks \<Longrightarrow> distinct (key_add k ks)"
  by (simp add: key_add_def)

lemma set_key_add: "set (key_add k ks) = insert k (set ks)"
  by (auto simp: key_add_def)

lemma key_add_not_Nil: "key_add k ks \<noteq> []"
  by (simp add: key_add_def) auto

lemma set_key_delete: "set (key_delete k ks) = set ks - {k}"
  by (auto simp: key_delete_def)

lemma distinct_key_delete: "distinct ks \<Longrightarrow> distinct (key_delete k ks)"
  by (simp add: key_delete_def distinct_removeAll)

lemma key_delete_Nil_iff: "key_delete k ks = [] \<longleftrightarrow> set ks \<subseteq> {k}"
  by (induction ks) (auto simp: key_delete_def)

lemma members_JoinChatRoom:
  "members (JoinChatRoom c chatID s) k =
     (if k = chatID then insert c (members s k) else members s k)"
  by (auto simp: members_def JoinChatRoom_def set_key_add split: option.splits)

lemma members_LeaveChatRoom:
  "members (LeaveChatRoom c chatID s) k =
     (if k = chatID then members s k - {c} else members s k)"
  by (auto simp: members_def LeaveChatRoom_def set_key_delete key_delete_Nil_iff
      split: option.splits)

lemma heap_JoinChatRoom:
  "heap (JoinChatRoom c chatID s) c' =
     (if c' = c then (heap s c)\<lparr>ChatRooms := key_add chatID (ChatRooms (heap s c))\<rparr>
      else heap s c')"
  by (simp add: JoinChatRoom_def)

lemma heap_LeaveChatRoom:
  "heap (LeaveChatRoom c chatID s) c' =
     (if c' = c then (heap s c)\<lparr>ChatRooms := key_delete chatID (ChatRooms (heap s c))\<rparr>
      else heap s c')"
  by (simp add: LeaveChatRoom_def)

lemma hub_inv_JoinChatRoom:
  assumes "hub_inv s" and "c < allocated s"
  shows "hub_inv (JoinChatRoom c chatID s)"
proof -
  from assms have r: "rooms_ok s" and t: "table_ok s" and j: "joined_ok s"
    by (simp_all add: hub_inv_def)
  have "rooms_ok (JoinChatRoom c chatID s)"
    using r assms(2) unfolding rooms_ok_def JoinChatRoom_def
    by (auto simp: set_key_add distinct_key_add key_add_not_Nil split: option.splits; metis)
  moreover have "table_ok (JoinChatRoom c chatID s)"
    using t unfolding table_ok_def JoinChatRoom_def by auto
  moreover have "joined_ok (JoinChatRoom c chatID s)"
    using j unfolding joined_ok_def
    by (auto simp: members_JoinChatRoom heap_JoinChatRoom set_key_add)
  ultimately show ?thesis by (simp add: hub_inv_def)
qed

lemma hub_inv_LeaveChatRoom:
  assumes "hub_inv s" and "c < allocated s"
  shows "hub_inv (LeaveChatRoom c chatID s)"
proof -
  from assms have r: "rooms_ok s" and t: "table_ok s" and j: "joined_ok s"
    by (simp_all add: hub_inv_def)
  have "rooms_ok (LeaveChatRoom c chatID s)"
    using r unfolding rooms_ok_def LeaveChatRoom_def
    by (auto simp: set_key_delete distinct_key_delete key_delete_Nil_iff
        split: option.splits if_splits)
  moreover have "table_ok (LeaveChatRoom c chatID s)"
    using t unfolding table_ok_def LeaveChatRoom_def by auto
  moreover have "joined_ok (LeaveChatRoom c chatID s)"
    using j unfolding joined_ok_def
    by (auto simp: members_LeaveChatRoom heap_LeaveChatRoom set_key_delete)
  ultimately show ?thesis by (simp add: hub_inv_def)
qed

lemma rooms_after_unregister:
  "(remove_from_rooms cs c rooms) k = Some r \<Longrightarrow>
     \<exists>r0. rooms k = Some r0 \<and> (if k \<in> set cs then r = removeAll c r0 \<and> r \<noteq> [] else r = r0)"
  by (auto simp: remove_from_rooms_apply split: if_splits option.splits)

lemma Run_unregister_absent:
  "clients s (ID (heap s c)) = None \<Longrightarrow>
     Run_unregister c s = Inr (s\<lparr>logs := logs s @ [LogDisconnected (ID (heap s c))]\<rparr>)"
  by (simp add: Run_unregister_def)

lemma Run_unregister_present:
  "clients s (ID (heap s c)) = Some c' \<Longrightarrow> \<not> closed (Send (heap s c)) \<Longrightarrow>
     Run_unregister c s =
       Inr (s\<lparr>clients := (clients s)(ID (heap s c) := None),
              heap := (heap s)(c := (heap s c)\<lparr>Send := (Send (heap s c))\<lparr>closed := True\<rparr>\<rparr>),
              chatRooms := remove_from_rooms (ChatRooms (heap s c)) c (chatRooms s),
              logs := logs s @ [LogDisconnected (ID (heap s c))]\<rparr>)"
  by (simp add: Run_unregister_def chan_close_def)

lemma Run_unregister_panics:
  "clients s (ID (heap s c)) = Some c' \<Longrightarrow> closed (Send (heap s c)) \<Longrightarrow>
     Run_unregister c s = Inl PanicCloseOfClosedChannel"
  by (simp add: Run_unregister_def chan_close_def)

lemma removeAll_Nil_iff: "removeAll k ks = [] \<longleftrightarrow> set ks \<subseteq> {k}"
  using key_delete_Nil_iff [of k ks] by (simp add: key_delete_def)

lemma members_remove_from_rooms:
  "chatRooms s' = remove_from_rooms cs c (chatRooms s) \<Longrightarrow>
   members s' k = (if k \<in> set cs then members s k - {c} else members s k)"
  by (auto simp: members_def remove_from_rooms_apply removeAll_Nil_iff split: option.splits)

lemma members_frame [simp]:
  "members (s\<lparr>logs := l\<rparr>) = members s"
  "members (s\<lparr>heap := h\<rparr>) = members s"
  "members (s\<lparr>clients := t\<rparr>) = members s"
  "members (s\<lparr>broadcast := b\<rparr>) = members s"
  "members (s\<lparr>allocated := n\<rparr>) = members s"
  by (simp_all add: members_def fun_eq_iff)

lemma hub_inv_Run_unregister:
  assumes "hub_inv s" and "Run_unregister c s = Inr s'"
  shows "hub_inv s'"
proof (cases "clients s (ID (heap s c))")
  case None
  with assms(2) have "s' = s\<lparr>logs := logs s @ [LogDisconnected (ID (heap s c))]\<rparr>"
    by (simp add: Run_unregister_absent)
  with assms(1) show ?thesis
    by (simp add: hub_inv_def rooms_ok_def table_ok_def joined_ok_def)
next
  case (Some c')
  with assms(2) have op: "\<not> closed (Send (heap s c))"
    by (auto simp: Run_unregister_def chan_close_def split: if_splits)
  from assms(2) Some op have s': "s' =
       s\<lparr>clients := (clients s)(ID (heap s c) := None),
              heap := (heap s)(c := (heap s c)\<lparr>Send := (Send (heap s c))\<lparr>closed := True\<rparr>\<rparr>),
              chatRooms := remove_from_rooms (ChatRooms (heap s c)) c (chatRooms s),
              logs := logs s @ [LogDisconnected (ID (heap s c))]\<rparr>"
    by (simp add: Run_unregister_present)
  from assms have r: "rooms_ok s" and t: "table_ok s" and j: "joined_ok s"
    by (simp_all add: hub_inv_def)
  have "rooms_ok s'"
    unfolding rooms_ok_def
  proof (intro allI impI)
    fix k room assume "chatRooms s' k = Some room"
    then have "remove_from_rooms (ChatRooms (heap s c)) c (chatRooms s) k = Some room"
      by (simp add: s')
    from rooms_after_unregister [OF this] obtain r0 where
      r0: "chatRooms s k = Some r0" and
      rm: "room = removeAll c r0 \<and> room \<noteq> [] \<or> room = r0" by (auto split: if_splits)
    from r r0 have "r0 \<noteq> []" and "distinct r0" and m0: "\<forall>x \<in> set r0. x < allocated s \<and> k \<in> set (ChatRooms (heap s x))"
      by (auto simp: rooms_ok_def)
    with rm have ne: "room \<noteq> []" and "distinct room" and "\<forall>x \<in> set room. x < allocated s \<and> k \<in> set (ChatRooms (heap s x))"
      by (auto simp: distinct_removeAll)
    then show "room \<noteq> [] \<and> distinct room \<and>
        (\<forall>x \<in> set room. x < allocated s' \<and> k \<in> set (ChatRooms (heap s' x)))"
      using ne by (auto simp: s')
  qed
  moreover have "table_ok s'"
    using t unfolding table_ok_def s' by auto
  moreover have "joined_ok s'"
    unfolding joined_ok_def
  proof (intro allI impI)
    fix x k assume a: "k \<in> set (ChatRooms (heap s' x))" and b: "\<not> closed (Send (heap s' x))"
    from b have xc: "x \<noteq> c" by (auto simp: s')
    with a b have "k \<in> set (ChatRooms (heap s x))" "\<not> closed (Send (heap s x))"
      by (simp_all add: s')
    with j have "x \<in> members s k" by (simp add: joined_ok_def)
    with xc show "x \<in> members s' k"
      using members_remove_from_rooms [of s' "ChatRooms (heap s c)" c s k]
      by (simp add: s')
  qed
  ultimately show ?thesis by (simp add: hub_inv_def)
qed

lemma offered_simps [simp]:
  "ID (offered m cl) = ID cl" "ChatRooms (offered m cl) = ChatRooms cl"
  "closed (Send cl) \<Longrightarrow> closed (Send (offered m cl))"
  by (simp_all add: offered_def)

lemma hub_inv_broadcast_range:
  assumes "hub_inv s" and "broadcast_range room m s = Inr s'" and "distinct room"
  shows "hub_inv s'"
proof -
  from assms have r: "rooms_ok s" and t: "table_ok s" and j: "joined_ok s"
    by (simp_all add: hub_inv_def)
  note fr = broadcast_range_frame [OF assms(2)]
  note hp = broadcast_range_heap [OF assms(2,3)]
  note cl = broadcast_range_clients [OF assms(2,3)]
  have ms: "members s' = members s" by (simp add: members_def fun_eq_iff fr)
  have "rooms_ok s'"
    using r unfolding rooms_ok_def by (auto simp: fr hp)
  moreover have "table_ok s'"
    unfolding table_ok_def
  proof (intro allI impI)
    fix uid c assume a: "clients s' uid = Some c"
    then have old: "clients s uid = Some c" and
      nf: "\<forall>x \<in> set room. ID (heap s x) = uid \<and> uid \<noteq> Exclude m
              \<longrightarrow> length (buf (Send (heap s x))) < cap (Send (heap s x))"
      by (auto simp: cl split: if_splits)
    from t old have c: "c < allocated s" "ID (heap s c) = uid" "\<not> closed (Send (heap s c))"
      by (auto simp: table_ok_def)
    with nf show "c < allocated s' \<and> ID (heap s' c) = uid \<and> \<not> closed (Send (heap s' c))"
      by (auto simp: fr hp offered_def)
  qed
  moreover have "joined_ok s'"
    using j unfolding joined_ok_def ms
    by (auto simp: hp split: if_splits) (metis offered_simps(3))+
  ultimately show ?thesis by (simp add: hub_inv_def)
qed

lemma hub_inv_frame:
  "hub_inv s \<Longrightarrow> hub_inv (s\<lparr>broadcast := b\<rparr>)"
  "hub_inv s \<Longrightarrow> hub_inv (s\<lparr>logs := l\<rparr>)"
  by (simp_all add: hub_inv_def rooms_ok_def table_ok_def joined_ok_def)

lemma hub_inv_deliver:
  assumes "hub_inv s" and "deliver m s = Inr s'"
  shows "hub_inv s'"
proof (cases "chatRooms s (ChatID m)")
  case None
  with assms show ?thesis by (simp add: deliver_def)
next
  case (Some room)
  with assms(1) have "distinct room" by (auto simp: hub_inv_def rooms_ok_def)
  with assms Some show ?thesis by (auto simp: deliver_def intro: hub_inv_broadcast_range)
qed

lemma hub_inv_Run_broadcast:
  assumes "hub_inv s" and "Run_broadcast s = Inr s'"
  shows "hub_inv s'"
  using assms
  by (auto simp: Run_broadcast_def split: list.splits
      intro: hub_inv_deliver [OF hub_inv_frame(1)])

lemma hub_inv_BroadcastToChat:
  assumes "hub_inv s" and "BroadcastToChat k p x s = Inr s'"
  shows "hub_inv s'"
  using assms
  by (auto simp: BroadcastToChat_def split: sum.splits intro: hub_inv_frame)

lemma WritePump_turn_frame:
  assumes "WritePump_turn c w s = Inr s'"
  shows "chatRooms s' = chatRooms s" "clients s' = clients s" "allocated s' = allocated s"
    "broadcast s' = broadcast s"
    "ID (heap s' x) = ID (heap s x)" "ChatRooms (heap s' x) = ChatRooms (heap s x)"
    "closed (Send (heap s' x)) = closed (Send (heap s x))"
  using assms
  by (auto simp: WritePump_turn_def chan_recv_def split: list.splits if_splits)

lemma hub_inv_WritePump_turn:
  assumes "hub_inv s" and "WritePump_turn c w s = Inr s'"
  shows "hub_inv s'"
  using assms(1) unfolding hub_inv_def rooms_ok_def table_ok_def joined_ok_def members_def
  by (simp add: WritePump_turn_frame [OF assms(2)])

lemma hub_inv_step:
  assumes "hub_inv s" and "step e s = Inr s'"
  shows "hub_inv s'"
proof (cases e)
  case (Connect uid)
  with assms show ?thesis by (auto intro: hub_inv_HandleWebSocket)
next
  case (Unregister c)
  with assms show ?thesis by (auto split: if_splits intro: hub_inv_Run_unregister)
next
  case (Join c k)
  with assms show ?thesis by (auto split: if_splits intro: hub_inv_JoinChatRoom)
next
  case (Leave c k)
  with assms show ?thesis by (auto split: if_splits intro: hub_inv_LeaveChatRoom)
next
  case (Submit k p x)
  with assms show ?thesis by (auto intro: hub_inv_BroadcastToChat)
next
  case Deliver
  with assms show ?thesis by (auto intro: hub_inv_Run_broadcast)
next
  case (Drain c w)
  with assms show ?thesis by (auto split: if_splits intro: hub_inv_WritePump_turn)
qed

lemma reachable_hub_inv: "reachable s \<Longrightarrow> hub_inv s"
  by (induction rule: reachable.induct) (auto intro: hub_inv_NewHub hub_inv_step)

lemma run_reachable: "reachable s \<Longrightarrow> run es s = Inr s' \<Longrightarrow> reachable s'"
  by (induction es arbitrary: s) (auto split: sum.splits intro: reachable_step)

lemma reachable_two_in_room_5: "reachable two_in_room_5"
proof -
  have "run [Connect 1, Join 0 5, Connect 2, Join 1 5] NewHub = Inr two_in_room_5"
    by (simp add: two_in_room_5_def hub_defs)
  from run_reachable [OF reachable_NewHub this] show ?thesis .
qed

lemma reachable_one_in_room_5: "reachable one_in_room_5"
proof -
  have "run [Connect 1, Join 0 5] NewHub = Inr one_in_room_5"
    by (simp add: one_in_room_5_def hub_defs)
  from run_reachable [OF reachable_NewHub this] show ?thesis .
qed

lemma step_creates_room:
  assumes "step e s = Inr s'" and "chatRooms s chatID = None" and "chatRooms s' chatID \<noteq> None"
  shows "\<exists>c. e = Join c chatID"
proof (cases e)
  case (Connect uid)
  with assms show ?thesis by (auto simp: HandleWebSocket_def Run_register_def)
next
  case (Unregister c)
  with assms show ?thesis
    by (auto simp: Run_unregister_def chan_close_def remove_from_rooms_apply
        split: if_splits option.splits)
next
  case (Join c k)
  with assms show ?thesis by (auto simp: JoinChatRoom_def split: if_splits)
next
  case (Leave c k)
  with assms show ?thesis by (auto simp: LeaveChatRoom_def split: if_splits option.splits)
next
  case (Submit k p x)
  with assms show ?thesis by (auto simp: BroadcastToChat_def split: sum.splits)
next
  case Deliver
  with assms show ?thesis
    by (auto simp: Run_broadcast_def deliver_def split: list.splits option.splits
        dest!: broadcast_range_frame)
next
  case (Drain c w)
  with assms show ?thesis by (auto split: if_splits dest!: WritePump_turn_frame(1))
qed


lemma key_add_member: "k \<in> set ks \<Longrightarrow> key_add k ks = ks"
  by (simp add: key_add_def)

lemma key_delete_key_add: "k \<notin> set ks \<Longrightarrow> key_delete k (key_add k ks) = ks"
  by (simp add: key_add_def key_delete_def)

lemma JoinChatRoom_member:
  assumes "chatRooms s chatID = Some room" and "c \<in> set room"
    and "chatID \<in> set (ChatRooms (heap s c))"
  shows "JoinChatRoom c chatID s = s\<lparr>logs := logs s @ [LogJoined (ID (heap s c)) chatID]\<rparr>"
proof -
  have "(chatRooms s)(chatID \<mapsto> room) = chatRooms s"
    using assms(1) by (simp add: fun_upd_idem)
  moreover have "(heap s)(c := heap s c) = heap s" by simp
  ultimately show ?thesis
    using assms by (simp add: JoinChatRoom_def key_add_member)
qed

lemma Leave_after_Join:
  assumes "rooms_ok s" and "c \<notin> members s chatID" and "chatID \<notin> set (ChatRooms (heap s c))"
  shows "LeaveChatRoom c chatID (JoinChatRoom c chatID s) =
     s\<lparr>logs := logs s @ [LogJoined (ID (heap s c)) chatID, LogLeft (ID (heap s c)) chatID]\<rparr>"
proof (cases "chatRooms s chatID")
  case None
  then have "(chatRooms s)(chatID := None) = chatRooms s" by (simp add: fun_upd_idem)
  with None assms(3) show ?thesis
    by (simp add: LeaveChatRoom_def JoinChatRoom_def key_delete_key_add)
next
  case (Some room)
  with assms have ne: "room \<noteq> []" and ni: "c \<notin> set room"
    by (auto simp: rooms_ok_def members_def)
  from Some have "(chatRooms s)(chatID \<mapsto> room) = chatRooms s" by (simp add: fun_upd_idem)
  with Some ne ni assms(3) show ?thesis
    by (simp add: LeaveChatRoom_def JoinChatRoom_def key_delete_key_add)
qed

section \<open>Filling a send queue\<close>

lemma run_append:
  "run (xs @ ys) s = (case run xs s of Inl e \<Rightarrow> Inl e | Inr s' \<Rightarrow> run ys s')"
  by (induction xs arbitrary: s) (auto split: sum.splits)

lemma two_in_room_5_fields:
  "clients two_in_room_5 = [1 \<mapsto> 0, 2 \<mapsto> 1]"
  "chatRooms two_in_room_5 = [5 \<mapsto> [0, 1]]"
  "broadcast two_in_room_5 = \<lparr>buf = [], cap = 256, closed = False\<rparr>"
  "heap two_in_room_5 0 = \<lparr>ID = 1, Send = \<lparr>buf = [], cap = 256, closed = False\<rparr>, ChatRooms = [5]\<rparr>"
  "heap two_in_room_5 1 = \<lparr>ID = 2, Send = \<lparr>buf = [], cap = 256, closed = False\<rparr>, ChatRooms = [5]\<rparr>"
  "heap two_in_room_5 (Suc 0) = \<lparr>ID = 2, Send = \<lparr>buf = [], cap = 256, closed = False\<rparr>, ChatRooms = [5]\<rparr>"
  "allocated two_in_room_5 = 2"
  by (simp_all add: two_in_room_5_def hub_defs)

lemma two_in_room_5_idem:
  "two_in_room_5\<lparr>broadcast := \<lparr>buf = [], cap = 256, closed = False\<rparr>\<rparr> = two_in_room_5"
  "(heap two_in_room_5)
     (0 := \<lparr>ID = 1, Send = \<lparr>buf = [], cap = 256, closed = False\<rparr>, ChatRooms = [5]\<rparr>)
   = heap two_in_room_5"
  using two_in_room_5_fields(3,4) by (simp_all add: fun_upd_idem)

lemma queued_0: "queued 0 = two_in_room_5"
  by (simp add: queued_def two_in_room_5_idem)

lemma queued_step:
  "n < 256 \<Longrightarrow> run [Submit 5 ''typing'' 2, Deliver] (queued n) = Inr (queued (Suc n))"
  by (simp add: queued_def two_in_room_5_fields BroadcastToChat_def chan_send_def
      Run_broadcast_def deliver_def select_send_def chan_close_def
      two_in_room_5_idem replicate_append_same)

lemma typing_burst_Suc:
  "typing_burst (Suc n) = [Submit 5 ''typing'' 2, Deliver] @ typing_burst n"
  by simp

lemma queued_run: "k + n \<le> 256 \<Longrightarrow> run (typing_burst n) (queued k) = Inr (queued (k + n))"
proof (induction n arbitrary: k)
  case 0
  then show ?case by simp
next
  case (Suc n)
  from Suc.prems have "k < 256" by simp
  from queued_step [OF this] have
    "run (typing_burst (Suc n)) (queued k) = run (typing_burst n) (queued (Suc k))"
    by (simp only: typing_burst_Suc run_append sum.case)
  with Suc.IH [of "Suc k"] Suc.prems show ?case by simp
qed

lemma run_to_saturation:
  "run ([Connect 1, Join 0 5, Connect 2, Join 1 5] @ typing_burst 256 @ es) NewHub
     = run es (queued 256)"
proof -
  have "run [Connect 1, Join 0 5, Connect 2, Join 1 5] NewHub = Inr (queued 0)"
    unfolding queued_0 by (simp add: two_in_room_5_def hub_defs)
  moreover from queued_run [of 0 256]
  have "run (typing_burst 256) (queued 0) = Inr (queued 256)" by simp
  ultimately show ?thesis
    by (simp only: run_append sum.case)
qed

lemma overflow_step:
  assumes "\<not> n < 256"
  shows "\<exists>t. run [Submit 5 ''status'' 0, Deliver] (queued n) = Inr t
    \<and> closed (Send (heap t 0)) \<and> clients t 1 = None \<and> members t 5 = {0, 1}
    \<and> 5 \<in> set (ChatRooms (heap t 0)) \<and> buf (Send (heap t 1)) = [''status'']"
  using assms
  by (simp add: queued_def two_in_room_5_fields BroadcastToChat_def chan_send_def
      Run_broadcast_def deliver_def select_send_def chan_close_def members_def)

lemma overflow_then_panic:
  assumes "\<not> n < 256"
  shows "run [Submit 5 ''status'' 0, Deliver, Submit 5 ''status'' 0, Deliver] (queued n) =
     Inl PanicSendOnClosedChannel"
  using assms
  by (simp add: queued_def two_in_room_5_fields BroadcastToChat_def chan_send_def
      Run_broadcast_def deliver_def select_send_def chan_close_def)

lemma overflow_reconnect_unregister:
  assumes "\<not> n < 256"
  shows "run [Submit 5 ''status'' 0, Deliver, Connect 1, Unregister 0] (queued n) =
     Inl PanicCloseOfClosedChannel"
  using assms
  by (simp add: queued_def two_in_room_5_fields BroadcastToChat_def chan_send_def
      Run_broadcast_def deliver_def select_send_def chan_close_def HandleWebSocket_def
      Run_register_def Run_unregister_def make_chan_def)

lemma overflow_reconnect_state:
  assumes "\<not> n < 256"
  shows "\<exists>t. run [Submit 5 ''status'' 0, Deliver, Connect 1] (queued n) = Inr t
    \<and> closed (Send (heap t 0)) \<and> ID (heap t 0) = 1 \<and> clients t 1 = Some 2"
  using assms
  by (simp add: queued_def two_in_room_5_fields BroadcastToChat_def chan_send_def
      Run_broadcast_def deliver_def select_send_def chan_close_def HandleWebSocket_def
      Run_register_def make_chan_def)

lemma overflow_both_unregister:
  assumes "\<not> n < 256"
  shows "\<exists>t. run [Submit 5 ''status'' 0, Deliver, Unregister 1, Unregister 0] (queued n) = Inr t
    \<and> clients t 1 = None \<and> clients t 2 = None \<and> chatRooms t 5 = Some [0]
    \<and> closed (Send (heap t 0)) \<and> closed (Send (heap t 1))"
  using assms
  by (simp add: queued_def two_in_room_5_fields BroadcastToChat_def chan_send_def
      Run_broadcast_def deliver_def select_send_def chan_close_def
      Run_unregister_def key_delete_def)

section \<open>Order of delivery\<close>

lemma deliver_frame:
  "deliver m s = Inr s' \<Longrightarrow>
     chatRooms s' = chatRooms s \<and> allocated s' = allocated s \<and> logs s' = logs s
     \<and> broadcast s' = broadcast s"
  by (auto simp: deliver_def split: option.splits dest: broadcast_range_frame)

lemma step_queue:
  assumes "step e s = Inr s1"
  shows "taken e s @ buf (broadcast s1) = buf (broadcast s) @ submitted [e]"
proof (cases e)
  case (Connect uid)
  with assms show ?thesis by (auto simp: HandleWebSocket_def Run_register_def)
next
  case (Unregister c)
  with assms show ?thesis
    by (auto simp: Run_unregister_def chan_close_def split: if_splits option.splits)
next
  case (Join c k)
  with assms show ?thesis by (auto simp: JoinChatRoom_def split: if_splits)
next
  case (Leave c k)
  with assms show ?thesis by (auto simp: LeaveChatRoom_def split: if_splits)
next
  case (Submit k p x)
  with assms show ?thesis
    by (auto simp: BroadcastToChat_def chan_send_def split: if_splits)
next
  case Deliver
  with assms show ?thesis
    by (auto simp: Run_broadcast_def split: list.splits dest!: deliver_frame)
next
  case (Drain c w)
  with assms show ?thesis by (auto split: if_splits dest!: WritePump_turn_frame(4))
qed

lemma deliver_buf:
  assumes "hub_inv s" and "deliver m s = Inr s1"
  shows "buf (Send (heap s1 c)) =
     buf (Send (heap s c)) @ map Message (filter (accepts s c) [m])"
proof (cases "chatRooms s (ChatID m)")
  case None
  with assms(2) show ?thesis by (simp add: deliver_def accepts_def members_def)
next
  case (Some room)
  with assms(1) have d: "distinct room" by (auto simp: hub_inv_def rooms_ok_def)
  from assms(2) Some have "broadcast_range room m s = Inr s1" by (simp add: deliver_def)
  from broadcast_range_heap [OF this d, of c] Some show ?thesis
    by (simp add: accepts_def members_def offered_def)
qed

lemma no_delivery:
  assumes "taken e s = []" and "b = xs \<or> b = [] \<or> b = tl xs"
  shows "\<exists>j. b = drop j (xs @ map Message (filter P (taken e s)))"
proof -
  from assms(2) have "b = drop 0 xs \<or> b = drop (length xs) xs \<or> b = drop 1 xs"
    by (simp add: drop_Suc)
  then have "\<exists>j. b = drop j xs" by blast
  with assms(1) show ?thesis by simp
qed

lemma step_buf:
  assumes "hub_inv s" and "step e s = Inr s1"
  shows "\<exists>j. buf (Send (heap s1 c)) =
     drop j (buf (Send (heap s c)) @ map Message (filter (accepts s c) (taken e s)))"
proof (cases e)
  case (Connect uid)
  with assms(2) have "buf (Send (heap s1 c)) = buf (Send (heap s c)) \<or> buf (Send (heap s1 c)) = []"
    by (auto simp: HandleWebSocket_def Run_register_def make_chan_def)
  with Connect show ?thesis by (intro no_delivery) auto
next
  case (Unregister c')
  with assms(2) have "buf (Send (heap s1 c)) = buf (Send (heap s c))"
    by (auto simp: Run_unregister_def chan_close_def split: if_splits option.splits)
  with Unregister show ?thesis by (intro no_delivery) auto
next
  case (Join c' k)
  with assms(2) have "buf (Send (heap s1 c)) = buf (Send (heap s c))"
    by (auto simp: JoinChatRoom_def split: if_splits)
  with Join show ?thesis by (intro no_delivery) auto
next
  case (Leave c' k)
  with assms(2) have "buf (Send (heap s1 c)) = buf (Send (heap s c))"
    by (auto simp: LeaveChatRoom_def split: if_splits)
  with Leave show ?thesis by (intro no_delivery) auto
next
  case (Submit k p x)
  with assms(2) have "buf (Send (heap s1 c)) = buf (Send (heap s c))"
    by (auto simp: BroadcastToChat_def split: sum.splits)
  with Submit show ?thesis by (intro no_delivery) auto
next
  case Deliver
  with assms(2) obtain m rest where
    q: "buf (broadcast s) = m # rest" and
    d: "deliver m (s\<lparr>broadcast := (broadcast s)\<lparr>buf := rest\<rparr>\<rparr>) = Inr s1"
    by (auto simp: Run_broadcast_def split: list.splits)
  from assms(1) have "hub_inv (s\<lparr>broadcast := (broadcast s)\<lparr>buf := rest\<rparr>\<rparr>)"
    by (rule hub_inv_frame)
  from deliver_buf [OF this d, of c]
  have "buf (Send (heap s1 c)) =
     drop 0 (buf (Send (heap s c)) @ map Message (filter (accepts s c) [m]))"
    by (simp add: accepts_def)
  with Deliver q show ?thesis by (metis list.simps(5) taken.simps(1))
next
  case (Drain c' w)
  with assms(2) have "buf (Send (heap s1 c)) = buf (Send (heap s c))
      \<or> buf (Send (heap s1 c)) = tl (buf (Send (heap s c)))"
    by (auto simp: WritePump_turn_def chan_recv_def split: list.splits if_splits)
  with Drain show ?thesis by (intro no_delivery) auto
qed

lemma drop_drop_append:
  "\<exists>j. drop k (drop i xs @ ys) = drop j (xs @ ys)"
proof (cases "i \<le> length xs")
  case True
  then have "drop k (drop i xs @ ys) = drop (i + k) (xs @ ys)" by (simp add: add.commute)
  then show ?thesis by blast
next
  case False
  then have "drop k (drop i xs @ ys) = drop (length xs + k) (xs @ ys)" by (simp add: add.commute)
  then show ?thesis by blast
qed

lemma run_order:
  assumes "hub_inv s" and "run es s = Inr s'"
  shows "(\<exists>k. buf (Send (heap s' c)) =
            drop k (buf (Send (heap s c)) @ map Message (enqueued c es s)))
    \<and> subseq (enqueued c es s) (buf (broadcast s) @ submitted es)"
  using assms
proof (induction es arbitrary: s)
  case Nil
  then have "buf (Send (heap s' c)) = drop 0 (buf (Send (heap s c)) @ map Message (enqueued c [] s))"
    by simp
  then show ?case by (metis enqueued.simps(1) list_emb_Nil)
next
  case (Cons e es)
  from Cons.prems(2) obtain s1 where s1: "step e s = Inr s1" and r: "run es s1 = Inr s'"
    by (auto split: sum.splits)
  from hub_inv_step [OF Cons.prems(1) s1] have i1: "hub_inv s1" .
  from Cons.IH [OF i1 r] obtain k where
    k: "buf (Send (heap s' c)) = drop k (buf (Send (heap s1 c)) @ map Message (enqueued c es s1))"
    and sub: "subseq (enqueued c es s1) (buf (broadcast s1) @ submitted es)"
    by blast
  from step_buf [OF Cons.prems(1) s1, of c] obtain j where
    j: "buf (Send (heap s1 c)) =
          drop j (buf (Send (heap s c)) @ map Message (filter (accepts s c) (taken e s)))"
    by blast
  have en: "enqueued c (e # es) s = filter (accepts s c) (taken e s) @ enqueued c es s1"
    using s1 by simp
  have "\<exists>k'. buf (Send (heap s' c)) =
          drop k' (buf (Send (heap s c)) @ map Message (enqueued c (e # es) s))"
    unfolding en k j
    using drop_drop_append [of k j
        "buf (Send (heap s c)) @ map Message (filter (accepts s c) (taken e s))"
        "map Message (enqueued c es s1)"]
    by simp
  moreover have "subseq (enqueued c (e # es) s) (buf (broadcast s) @ submitted (e # es))"
  proof -
    have sp: "submitted (e # es) = submitted [e] @ submitted es"
      by (cases e) simp_all
    have "subseq (filter (accepts s c) (taken e s)) (taken e s)" by simp
    from list_emb_append_mono [OF this sub]
    have "subseq (enqueued c (e # es) s) ((taken e s @ buf (broadcast s1)) @ submitted es)"
      unfolding en by simp
    then show ?thesis unfolding step_queue [OF s1] sp by simp
  qed
  ultimately show ?case by blast
qed


lemma deliver_members:
  "deliver m s = Inr s1 \<Longrightarrow> members s1 = members s"
  by (drule deliver_frame) (simp add: members_def fun_eq_iff)

lemma deliver_keeps:
  assumes "hub_inv s" and "deliver m s = Inr s1"
  shows "ID (heap s1 c) = ID (heap s c) \<and> cap (Send (heap s1 c)) = cap (Send (heap s c))"
proof (cases "chatRooms s (ChatID m)")
  case None
  with assms(2) show ?thesis by (simp add: deliver_def)
next
  case (Some room)
  with assms(1) have d: "distinct room" by (auto simp: hub_inv_def rooms_ok_def)
  from assms(2) Some have "broadcast_range room m s = Inr s1" by (simp add: deliver_def)
  from broadcast_range_heap [OF this d, of c] show ?thesis by (simp add: offered_def)
qed

lemma two_broadcasts_in_order:
  assumes inv: "hub_inv s" and empty: "buf (broadcast s) = []"
    and run: "run [Submit R p1 x1, Submit R p2 x2, Deliver, Deliver] s = Inr s'"
    and mem: "B \<in> members s R" and ex: "ID (heap s B) \<noteq> x1" "ID (heap s B) \<noteq> x2"
    and room: "length (buf (Send (heap s B))) + 2 \<le> cap (Send (heap s B))"
  shows "buf (Send (heap s' B)) = buf (Send (heap s B)) @ [p1, p2]"
proof -
  define m1 where "m1 = \<lparr>ChatID = R, Message = p1, Exclude = x1\<rparr>"
  define m2 where "m2 = \<lparr>ChatID = R, Message = p2, Exclude = x2\<rparr>"
  define sa where "sa = s\<lparr>broadcast := (broadcast s)\<lparr>buf := [m2]\<rparr>\<rparr>"
  from run empty obtain s3 where
    d1: "deliver m1 sa = Inr s3" and r2: "Run_broadcast s3 = Inr s'"
    by (auto simp: BroadcastToChat_def chan_send_def Run_broadcast_def m1_def m2_def sa_def
        split: if_splits sum.splits)
  have ia: "hub_inv sa" unfolding sa_def using inv by (rule hub_inv_frame)
  from deliver_frame [OF d1] have "buf (broadcast s3) = [m2]" by (simp add: sa_def)
  with r2 have d2: "deliver m2 (s3\<lparr>broadcast := (broadcast s3)\<lparr>buf := []\<rparr>\<rparr>) = Inr s'"
    by (simp add: Run_broadcast_def)
  have i3: "hub_inv (s3\<lparr>broadcast := (broadcast s3)\<lparr>buf := []\<rparr>\<rparr>)"
    using hub_inv_deliver [OF ia d1] by (rule hub_inv_frame)
  have a1: "accepts sa B m1"
    using mem ex room by (simp add: accepts_def sa_def m1_def)
  from deliver_buf [OF ia d1, of B] a1
  have b3: "buf (Send (heap s3 B)) = buf (Send (heap s B)) @ [p1]"
    by (simp add: sa_def m1_def)
  from deliver_keeps [OF ia d1, of B] deliver_members [OF d1]
  have k3: "members s3 = members s" "ID (heap s3 B) = ID (heap s B)"
    "cap (Send (heap s3 B)) = cap (Send (heap s B))"
    by (simp_all add: sa_def)
  have a2: "accepts (s3\<lparr>broadcast := (broadcast s3)\<lparr>buf := []\<rparr>\<rparr>) B m2"
    using mem ex room by (simp add: accepts_def m2_def k3 b3)
  from deliver_buf [OF i3 d2, of B] a2 b3 show ?thesis
    by (simp add: m2_def)
qed

section \<open>The order of \<^verbatim>\<open>range\<close> is immaterial\<close>

text \<open>
  Go visits the keys of a map in an unspecified order. Both loops give the same
  result, panics included, for every order in which the keys are listed.
\<close>

lemma remove_from_rooms_order:
  "set xs = set ys \<Longrightarrow> remove_from_rooms xs c rooms = remove_from_rooms ys c rooms"
  by (rule ext) (simp add: remove_from_rooms_apply)

lemma broadcast_range_panic:
  "broadcast_range room m s = Inl e \<Longrightarrow> e = PanicSendOnClosedChannel"
proof (induction room arbitrary: s)
  case Nil
  then show ?case by simp
next
  case (Cons c rest)
  then show ?case
    by (auto simp: select_send_def chan_close_def split: if_splits)
qed

lemma broadcast_range_order:
  assumes "distinct xs" and "distinct ys" and "set xs = set ys"
  shows "broadcast_range xs m s = broadcast_range ys m s"
proof (cases "broadcast_range xs m s")
  case (Inl e)
  then have "\<not> (\<exists>s'. broadcast_range xs m s = Inr s')" by simp
  with broadcast_range_ok_iff [OF assms(1), of m s] broadcast_range_ok_iff [OF assms(2), of m s]
    assms(3)
  have "\<not> (\<exists>s'. broadcast_range ys m s = Inr s')" by simp
  then obtain e' where "broadcast_range ys m s = Inl e'"
    by (cases "broadcast_range ys m s") auto
  with Inl broadcast_range_panic [of xs m s e] broadcast_range_panic [of ys m s e']
  show ?thesis by simp
next
  case (Inr t)
  then have "\<exists>s'. broadcast_range xs m s = Inr s'" by blast
  with broadcast_range_ok_iff [OF assms(1), of m s] broadcast_range_ok_iff [OF assms(2), of m s]
    assms(3)
  obtain t' where t': "broadcast_range ys m s = Inr t'" by auto
  have "t = t'"
  proof (rule world.equality)
    show "heap t = heap t'"
      using broadcast_range_heap [OF Inr assms(1)] broadcast_range_heap [OF t' assms(2)] assms(3)
      by (simp add: fun_eq_iff)
    show "clients t = clients t'"
      using broadcast_range_clients [OF Inr assms(1)] broadcast_range_clients [OF t' assms(2)]
        assms(3)
      by (simp add: fun_eq_iff)
  qed (use broadcast_range_frame [OF Inr] broadcast_range_frame [OF t'] in simp_all)
  with Inr t' show ?thesis by simp
qed

section \<open>Unregistering a client that the live table holds\<close>

text \<open>
  When the live table holds the client under its identity, in a reachable state, the
  unregister case does not panic; afterwards the client is in no entry of the table
  and in no room and its send queue is closed, and unregistering it again right away
  changes nothing but the log.
\<close>

lemma unregister_of_registered_client:
  assumes "reachable s" and "clients s (ID (heap s c)) = Some c"
  shows "\<exists>s'. Run_unregister c s = Inr s'
    \<and> (\<forall>uid. clients s' uid \<noteq> Some c)
    \<and> (\<forall>chatID. c \<notin> members s' chatID)
    \<and> closed (Send (heap s' c))
    \<and> Run_unregister c s' = Inr (s'\<lparr>logs := logs s' @ [LogDisconnected (ID (heap s c))]\<rparr>)"
proof -
  from reachable_hub_inv [OF assms(1)] have r: "rooms_ok s" and t: "table_ok s"
    by (simp_all add: hub_inv_def)
  from t assms(2) have op: "\<not> closed (Send (heap s c))" by (auto simp: table_ok_def)
  define s' where "s' =
       s\<lparr>clients := (clients s)(ID (heap s c) := None),
              heap := (heap s)(c := (heap s c)\<lparr>Send := (Send (heap s c))\<lparr>closed := True\<rparr>\<rparr>),
              chatRooms := remove_from_rooms (ChatRooms (heap s c)) c (chatRooms s),
              logs := logs s @ [LogDisconnected (ID (heap s c))]\<rparr>"
  have run: "Run_unregister c s = Inr s'"
    using Run_unregister_present [OF assms(2) op] by (simp add: s'_def)
  have tab: "\<forall>uid. clients s' uid \<noteq> Some c"
    using t by (auto simp: s'_def table_ok_def)
  have rooms: "\<forall>chatID. c \<notin> members s' chatID"
  proof
    fix chatID
    have cr: "chatRooms s' = remove_from_rooms (ChatRooms (heap s c)) c (chatRooms s)"
      by (simp add: s'_def)
    have "c \<in> members s chatID \<Longrightarrow> chatID \<in> set (ChatRooms (heap s c))"
      using r by (auto simp: rooms_ok_def members_def split: option.splits)
    then show "c \<notin> members s' chatID"
      by (auto simp: members_remove_from_rooms [OF cr])
  qed
  have cl: "closed (Send (heap s' c))" by (simp add: s'_def)
  have "clients s' (ID (heap s' c)) = None" by (simp add: s'_def)
  from Run_unregister_absent [OF this]
  have again: "Run_unregister c s' = Inr (s'\<lparr>logs := logs s' @ [LogDisconnected (ID (heap s c))]\<rparr>)"
    by (simp add: s'_def)
  from run tab rooms cl again show ?thesis by blast
qed

text \<open>
  Rooms in the table: none is empty in a reachable state; a step that makes a room
  appear is a join of that room, and joining an absent room creates it with the
  joining client as its only member; the room is deleted when its only member leaves,
  or is unregistered while the live table holds it.
\<close>

lemma room_lifecycle:
  assumes "reachable s"
  shows "(\<forall>room. chatRooms s chatID = Some room \<longrightarrow> room \<noteq> [])
    \<and> (step e s = Inr s' \<and> chatRooms s chatID = None \<and> chatRooms s' chatID \<noteq> None
         \<longrightarrow> (\<exists>c'. e = Join c' chatID))
    \<and> (chatRooms s chatID = None \<longrightarrow> chatRooms (JoinChatRoom c chatID s) chatID = Some [c])
    \<and> (members s chatID = {c} \<longrightarrow> chatRooms (LeaveChatRoom c chatID s) chatID = None)
    \<and> (members s chatID = {c} \<and> clients s (ID (heap s c)) = Some c \<longrightarrow>
          (\<exists>t. Run_unregister c s = Inr t \<and> chatRooms t chatID = None))
    \<and> (case run [Connect 1, Join 0 5, Unregister 0] NewHub of
          Inl _ \<Rightarrow> False | Inr t \<Rightarrow> chatRooms t 5 = None)"
proof -
  from reachable_hub_inv [OF assms] have r: "rooms_ok s" and t: "table_ok s"
    by (simp_all add: hub_inv_def)
  have a: "\<forall>room. chatRooms s chatID = Some room \<longrightarrow> room \<noteq> []"
    using r by (auto simp: rooms_ok_def)
  have b: "step e s = Inr s' \<and> chatRooms s chatID = None \<and> chatRooms s' chatID \<noteq> None
         \<longrightarrow> (\<exists>c'. e = Join c' chatID)"
    using step_creates_room by blast
  have c: "chatRooms s chatID = None \<longrightarrow> chatRooms (JoinChatRoom c chatID s) chatID = Some [c]"
    by (simp add: JoinChatRoom_def key_add_def)
  have d: "members s chatID = {c} \<longrightarrow> chatRooms (LeaveChatRoom c chatID s) chatID = None"
    by (auto simp: LeaveChatRoom_def members_def key_delete_Nil_iff split: option.splits)
  have e: "members s chatID = {c} \<and> clients s (ID (heap s c)) = Some c \<longrightarrow>
          (\<exists>t. Run_unregister c s = Inr t \<and> chatRooms t chatID = None)"
  proof
    assume h: "members s chatID = {c} \<and> clients s (ID (heap s c)) = Some c"
    with t have op: "\<not> closed (Send (heap s c))" by (auto simp: table_ok_def)
    from h obtain room where room: "chatRooms s chatID = Some room" "set room = {c}"
      by (auto simp: members_def split: option.splits)
    with r have j: "chatID \<in> set (ChatRooms (heap s c))" by (auto simp: rooms_ok_def)
    from room have "removeAll c room = []" by (simp add: removeAll_Nil_iff)
    with room j have
      "remove_from_rooms (ChatRooms (heap s c)) c (chatRooms s) chatID = None"
      by (simp add: remove_from_rooms_apply)
    with Run_unregister_present [of s c c] h op
    show "\<exists>t. Run_unregister c s = Inr t \<and> chatRooms t chatID = None" by simp
  qed
  have f: "case run [Connect 1, Join 0 5, Unregister 0] NewHub of
          Inl _ \<Rightarrow> False | Inr t \<Rightarrow> chatRooms t 5 = None"
    by (simp add: hub_defs)
  from a b c d e f show ?thesis by blast
qed

section \<open>The claims\<close>

subsection \<open>C1\<close>

text \<open>
  C1. Backpressure. Two clients, identities 1 and 2, are in room 5; the second sends
  256 typing notifications while the first one's writer takes nothing, so the first
  one's queue is at its capacity. A status update for room 5 is then broadcast with
  no one excluded. The hub does not block, closes the first client's queue, deletes
  its table entry and queues the update for the second client; but the first client
  is still a member of room 5, and the next broadcast to the room panics with a send
  on its closed queue.
\<close>

theorem overflow_keeps_room_membership:
  "(case run ([Connect 1, Join 0 5, Connect 2, Join 1 5] @ typing_burst 256
              @ [Submit 5 ''status'' 0, Deliver]) NewHub of
      Inl _ \<Rightarrow> False
    | Inr t \<Rightarrow> closed (Send (heap t 0)) \<and> clients t 1 = None \<and> members t 5 = {0, 1}
        \<and> 5 \<in> set (ChatRooms (heap t 0)) \<and> buf (Send (heap t 1)) = [''status''])
   \<and> run ([Connect 1, Join 0 5, Connect 2, Join 1 5] @ typing_burst 256
           @ [Submit 5 ''status'' 0, Deliver, Submit 5 ''status'' 0, Deliver]) NewHub
       = Inl PanicSendOnClosedChannel"
proof -
  have n: "\<not> (256::nat) < 256" by simp
  from overflow_step [OF n] obtain t where
    "run [Submit 5 ''status'' 0, Deliver] (queued 256) = Inr t"
    "closed (Send (heap t 0)) \<and> clients t 1 = None \<and> members t 5 = {0, 1}
        \<and> 5 \<in> set (ChatRooms (heap t 0)) \<and> buf (Send (heap t 1)) = [''status'']"
    by blast
  then show ?thesis
    by (simp only: run_to_saturation overflow_then_panic [OF n] sum.case simp_thms)
qed

subsection \<open>C2\<close>




subsection \<open>C3\<close>

text \<open>
  C3. Two registrations with one identity. After Register(A), JoinRoom(A,5) and a
  second registration with A's identity 1, the live table holds the second client
  under 1, and room 5 still holds the first, superseded one. When both then join and
  disconnect, first the old and then the new client, the second unregistration finds
  no table entry: the new client stays in room 5 with its send queue open.
\<close>

theorem duplicate_register_keeps_stale_member:
  "(case run [Connect 1, Join 0 5, Connect 1] NewHub of
      Inl _ \<Rightarrow> False
    | Inr t \<Rightarrow> ID (heap t 0) = 1 \<and> ID (heap t 1) = 1 \<and> clients t 1 = Some 1
        \<and> members t 5 = {0} \<and> \<not> closed (Send (heap t 0)))
   \<and> (case run [Connect 1, Join 0 5, Connect 1, Join 1 5, Unregister 0, Unregister 1] NewHub of
        Inl _ \<Rightarrow> False
      | Inr t \<Rightarrow> clients t 1 = None \<and> members t 5 = {1} \<and> \<not> closed (Send (heap t 1)))"
  by (simp add: hub_defs)

subsection \<open>C4\<close>

text \<open>
  C4. Unregistering a client that has already been removed is not always a no-op.
  The guard of the unregister case looks up the client's identity in the live table,
  not the client itself. After Register(A), Unregister(A) and a new registration with
  A's identity 1, handle A is in no table entry and in no room and its queue is
  closed; unregistering A once more finds the new client's entry, deletes it and
  closes A's closed queue, which panics. The same happens on the path the program
  takes by itself: A is evicted because its queue is full, the user reconnects, and
  then A's reader exits and hands A to \<^verbatim>\<open>h.unregister\<close>.
\<close>

theorem unregister_again_panics:
  "(case run [Connect 1, Unregister 0, Connect 1] NewHub of
      Inl _ \<Rightarrow> False
    | Inr t \<Rightarrow> (\<forall>uid. clients t uid \<noteq> Some 0) \<and> (\<forall>chatID. 0 \<notin> members t chatID)
        \<and> closed (Send (heap t 0)) \<and> clients t 1 = Some 1)
   \<and> run [Connect 1, Unregister 0, Connect 1, Unregister 0] NewHub
       = Inl PanicCloseOfClosedChannel
   \<and> (case run ([Connect 1, Join 0 5, Connect 2, Join 1 5] @ typing_burst 256
              @ [Submit 5 ''status'' 0, Deliver, Connect 1]) NewHub of
        Inl _ \<Rightarrow> False
      | Inr t \<Rightarrow> closed (Send (heap t 0)) \<and> ID (heap t 0) = 1 \<and> clients t 1 = Some 2)
   \<and> run ([Connect 1, Join 0 5, Connect 2, Join 1 5] @ typing_burst 256
           @ [Submit 5 ''status'' 0, Deliver, Connect 1, Unregister 0]) NewHub
       = Inl PanicCloseOfClosedChannel"
proof -
  have n: "\<not> (256::nat) < 256" by simp
  have a: "case run [Connect 1, Unregister 0, Connect 1] NewHub of
      Inl _ \<Rightarrow> False
    | Inr t \<Rightarrow> (\<forall>uid. clients t uid \<noteq> Some 0) \<and> (\<forall>chatID. 0 \<notin> members t chatID)
        \<and> closed (Send (heap t 0)) \<and> clients t 1 = Some 1"
    by (simp add: hub_defs)
  have b: "run [Connect 1, Unregister 0, Connect 1, Unregister 0] NewHub
       = Inl PanicCloseOfClosedChannel"
    by (simp add: hub_defs)
  from overflow_reconnect_state [OF n] obtain t where
    "run [Submit 5 ''status'' 0, Deliver, Connect 1] (queued 256) = Inr t"
    "closed (Send (heap t 0)) \<and> ID (heap t 0) = 1 \<and> clients t 1 = Some 2"
    by blast
  then have c: "case run ([Connect 1, Join 0 5, Connect 2, Join 1 5] @ typing_burst 256
              @ [Submit 5 ''status'' 0, Deliver, Connect 1]) NewHub of
        Inl _ \<Rightarrow> False
      | Inr t \<Rightarrow> closed (Send (heap t 0)) \<and> ID (heap t 0) = 1 \<and> clients t 1 = Some 2"
    by (simp only: run_to_saturation sum.case simp_thms)
  have d: "run ([Connect 1, Join 0 5, Connect 2, Join 1 5] @ typing_burst 256
           @ [Submit 5 ''status'' 0, Deliver, Connect 1, Unregister 0]) NewHub
       = Inl PanicCloseOfClosedChannel"
    by (simp only: run_to_saturation overflow_reconnect_unregister [OF n])
  from a b c d show ?thesis by blast
qed

subsection \<open>C5\<close>



subsection \<open>C6\<close>

text \<open>
  C6. Ordering. Take any run from a reachable state and any client. The payloads the
  run puts on the client's send queue are appended at its end, the writer only takes
  from its front, and the envelopes they come from form a subsequence of the
  envelopes pending in \<^verbatim>\<open>h.broadcast\<close> followed by those submitted during the run, in
  that order: of two envelopes submitted in the order m1, m2, the payload of m1 is
  queued before that of m2 for every client that gets both. In particular, when m1
  and m2 are submitted for one room and then delivered, with nothing pending before,
  a member of the room that neither excludes and whose queue has room for two ends
  with its queue extended by the payload of m1 followed by that of m2. The hub has
  one queue of envelopes for all rooms, so the order is kept across rooms as well.
\<close>

theorem broadcasts_keep_submission_order:
  assumes "reachable s" and "run es s = Inr s'"
  shows "(\<exists>k. buf (Send (heap s' c)) =
            drop k (buf (Send (heap s c)) @ map Message (enqueued c es s)))
    \<and> subseq (enqueued c es s) (buf (broadcast s) @ submitted es)
    \<and> (es = [Submit R p1 x1, Submit R p2 x2, Deliver, Deliver] \<and> buf (broadcast s) = []
         \<and> c \<in> members s R \<and> ID (heap s c) \<noteq> x1 \<and> ID (heap s c) \<noteq> x2
         \<and> length (buf (Send (heap s c))) + 2 \<le> cap (Send (heap s c))
        \<longrightarrow> buf (Send (heap s' c)) = buf (Send (heap s c)) @ [p1, p2])"
proof -
  note inv = reachable_hub_inv [OF assms(1)]
  from run_order [OF inv assms(2), of c] two_broadcasts_in_order [OF inv, of R p1 x1 p2 x2 s' c]
    assms(2)
  show ?thesis by blast
qed

theorem broadcasts_keep_submission_order_witness:
  "reachable two_in_room_5
   \<and> run [Submit 5 ''m1'' 1, Submit 5 ''m2'' 1, Deliver, Deliver] two_in_room_5 = Inr two_delivered
   \<and> buf (broadcast two_in_room_5) = [] \<and> 1 \<in> members two_in_room_5 5
   \<and> ID (heap two_in_room_5 1) = 2 \<and> buf (Send (heap two_in_room_5 1)) = []
   \<and> buf (Send (heap two_delivered 1)) = [''m1'', ''m2'']
   \<and> subseq (enqueued 1 [Submit 5 ''m1'' 1, Submit 5 ''m2'' 1, Deliver, Deliver] two_in_room_5)
        [\<lparr>ChatID = 5, Message = ''m1'', Exclude = 1\<rparr>, \<lparr>ChatID = 5, Message = ''m2'', Exclude = 1\<rparr>]"
proof -
  have r: "run [Submit 5 ''m1'' 1, Submit 5 ''m2'' 1, Deliver, Deliver] two_in_room_5
             = Inr two_delivered"
    by (simp add: two_delivered_def two_in_room_5_def hub_defs)
  have f: "buf (broadcast two_in_room_5) = []" "1 \<in> members two_in_room_5 5"
    "ID (heap two_in_room_5 1) = 2" "buf (Send (heap two_in_room_5 1)) = []"
    "length (buf (Send (heap two_in_room_5 1))) + 2 \<le> cap (Send (heap two_in_room_5 1))"
    by (simp_all add: two_in_room_5_def hub_defs)
  note th = broadcasts_keep_submission_order [OF reachable_two_in_room_5 r, of 1 5 "''m1''" 1 "''m2''" 1]
  from th f have a: "buf (Send (heap two_delivered 1)) = [''m1'', ''m2'']" by simp
  from th f have b:
    "subseq (enqueued 1 [Submit 5 ''m1'' 1, Submit 5 ''m2'' 1, Deliver, Deliver] two_in_room_5)
        [\<lparr>ChatID = 5, Message = ''m1'', Exclude = 1\<rparr>, \<lparr>ChatID = 5, Message = ''m2'', Exclude = 1\<rparr>]"
    by simp
  from reachable_two_in_room_5 r f a b show ?thesis by blast
qed

subsection \<open>C7\<close>

text \<open>
  C7. A room can outlive its last member's disconnection. The unregister case skips
  its loop over the client's rooms when the client's identity has no table entry.
  After Register(A), JoinRoom(A,5) and a second registration A' with A's identity,
  Unregister(A') deletes the entry and Unregister(A) is skipped: the live table is
  empty and room 5 still holds A. Likewise when A was evicted on a full queue: after
  the eviction, Unregister(B) and Unregister(A), no client is registered and room 5
  still holds A, whose queue is closed.
\<close>

theorem skipped_unregister_keeps_room:
  "(case run [Connect 1, Join 0 5, Connect 1, Unregister 1, Unregister 0] NewHub of
      Inl _ \<Rightarrow> False
    | Inr t \<Rightarrow> clients t 1 = None \<and> chatRooms t 5 = Some [0] \<and> \<not> closed (Send (heap t 0))
        \<and> closed (Send (heap t 1)))
   \<and> (case run ([Connect 1, Join 0 5, Connect 2, Join 1 5] @ typing_burst 256
              @ [Submit 5 ''status'' 0, Deliver, Unregister 1, Unregister 0]) NewHub of
        Inl _ \<Rightarrow> False
      | Inr t \<Rightarrow> clients t 1 = None \<and> clients t 2 = None \<and> chatRooms t 5 = Some [0]
          \<and> closed (Send (heap t 0)) \<and> closed (Send (heap t 1)))"
proof -
  have n: "\<not> (256::nat) < 256" by simp
  have a: "case run [Connect 1, Join 0 5, Connect 1, Unregister 1, Unregister 0] NewHub of
      Inl _ \<Rightarrow> False
    | Inr t \<Rightarrow> clients t 1 = None \<and> chatRooms t 5 = Some [0] \<and> \<not> closed (Send (heap t 0))
        \<and> closed (Send (heap t 1))"
    by (simp add: hub_defs)
  from overflow_both_unregister [OF n] obtain t where
    "run [Submit 5 ''status'' 0, Deliver, Unregister 1, Unregister 0] (queued 256) = Inr t"
    "clients t 1 = None \<and> clients t 2 = None \<and> chatRooms t 5 = Some [0]
      \<and> closed (Send (heap t 0)) \<and> closed (Send (heap t 1))"
    by blast
  then have b: "case run ([Connect 1, Join 0 5, Connect 2, Join 1 5] @ typing_burst 256
              @ [Submit 5 ''status'' 0, Deliver, Unregister 1, Unregister 0]) NewHub of
        Inl _ \<Rightarrow> False
      | Inr t \<Rightarrow> clients t 1 = None \<and> clients t 2 = None \<and> chatRooms t 5 = Some [0]
          \<and> closed (Send (heap t 0)) \<and> closed (Send (heap t 1))"
    by (simp only: run_to_saturation sum.case simp_thms)
  from a b show ?thesis by blast
qed

subsection \<open>C8\<close>

text \<open>
  C8. JoinRoom is idempotent and LeaveRoom undoes it. In a reachable state, joining a
  room the client is already a member of changes nothing but the log (the "joined"
  line is printed again); joining a room the client is not in and leaving it again
  gives the state back, but for the two log lines. In the scenario Register(A),
  JoinRoom(A,5), JoinRoom(A,6), LeaveRoom(A,5), for a client A of any identity, A's
  \<^verbatim>\<open>ChatRooms\<close> is {6}, room 5 is absent and room 6 is {A}.
\<close>

theorem join_idempotent_leave_inverse:
  assumes "reachable s"
  shows "(c \<in> members s chatID \<longrightarrow>
            JoinChatRoom c chatID s = s\<lparr>logs := logs s @ [LogJoined (ID (heap s c)) chatID]\<rparr>)
    \<and> (c \<notin> members s chatID \<and> chatID \<notin> set (ChatRooms (heap s c)) \<longrightarrow>
          LeaveChatRoom c chatID (JoinChatRoom c chatID s) =
            s\<lparr>logs := logs s @ [LogJoined (ID (heap s c)) chatID, LogLeft (ID (heap s c)) chatID]\<rparr>)
    \<and> (case run [Connect userID, Join 0 5, Join 0 6, Leave 0 5] NewHub of
          Inl _ \<Rightarrow> False
        | Inr t \<Rightarrow> ID (heap t 0) = userID \<and> ChatRooms (heap t 0) = [6]
            \<and> chatRooms t 5 = None \<and> chatRooms t 6 = Some [0])"
proof -
  from reachable_hub_inv [OF assms] have r: "rooms_ok s" by (simp add: hub_inv_def)
  have a: "c \<in> members s chatID \<longrightarrow>
            JoinChatRoom c chatID s = s\<lparr>logs := logs s @ [LogJoined (ID (heap s c)) chatID]\<rparr>"
  proof
    assume "c \<in> members s chatID"
    then obtain room where room: "chatRooms s chatID = Some room" "c \<in> set room"
      by (auto simp: members_def split: option.splits)
    with r have "chatID \<in> set (ChatRooms (heap s c))" by (auto simp: rooms_ok_def)
    from JoinChatRoom_member [OF room this]
    show "JoinChatRoom c chatID s = s\<lparr>logs := logs s @ [LogJoined (ID (heap s c)) chatID]\<rparr>" .
  qed
  have b: "c \<notin> members s chatID \<and> chatID \<notin> set (ChatRooms (heap s c)) \<longrightarrow>
          LeaveChatRoom c chatID (JoinChatRoom c chatID s) =
            s\<lparr>logs := logs s @ [LogJoined (ID (heap s c)) chatID, LogLeft (ID (heap s c)) chatID]\<rparr>"
    using Leave_after_Join [OF r] by blast
  have c: "case run [Connect userID, Join 0 5, Join 0 6, Leave 0 5] NewHub of
          Inl _ \<Rightarrow> False
        | Inr t \<Rightarrow> ID (heap t 0) = userID \<and> ChatRooms (heap t 0) = [6]
            \<and> chatRooms t 5 = None \<and> chatRooms t 6 = Some [0]"
    by (simp add: hub_defs)
  from a b c show ?thesis by blast
qed

theorem join_idempotent_leave_inverse_witness:
  "reachable one_in_room_5 \<and> 0 \<in> members one_in_room_5 5
   \<and> JoinChatRoom 0 5 one_in_room_5 =
       one_in_room_5\<lparr>logs := logs one_in_room_5 @ [LogJoined (ID (heap one_in_room_5 0)) 5]\<rparr>
   \<and> 0 \<notin> members one_in_room_5 6 \<and> 6 \<notin> set (ChatRooms (heap one_in_room_5 0))
   \<and> LeaveChatRoom 0 6 (JoinChatRoom 0 6 one_in_room_5) =
       one_in_room_5\<lparr>logs := logs one_in_room_5 @
          [LogJoined (ID (heap one_in_room_5 0)) 6, LogLeft (ID (heap one_in_room_5 0)) 6]\<rparr>"
proof -
  have m5: "0 \<in> members one_in_room_5 5" and m6: "0 \<notin> members one_in_room_5 6"
    and j6: "6 \<notin> set (ChatRooms (heap one_in_room_5 0))"
    by (simp_all add: one_in_room_5_def hub_defs)
  note th5 = join_idempotent_leave_inverse [OF reachable_one_in_room_5, of 0 5]
  note th6 = join_idempotent_leave_inverse [OF reachable_one_in_room_5, of 0 6]
  from th5 m5 have a: "JoinChatRoom 0 5 one_in_room_5 =
       one_in_room_5\<lparr>logs := logs one_in_room_5 @ [LogJoined (ID (heap one_in_room_5 0)) 5]\<rparr>"
    by blast
  from th6 m6 j6 have b: "LeaveChatRoom 0 6 (JoinChatRoom 0 6 one_in_room_5) =
       one_in_room_5\<lparr>logs := logs one_in_room_5 @
          [LogJoined (ID (heap one_in_room_5 0)) 6, LogLeft (ID (heap one_in_room_5 0)) 6]\<rparr>"
    by blast
  from reachable_one_in_room_5 m5 a m6 j6 b show ?thesis by blast
qed

subsection \<open>C9\<close>

text \<open>
  C9, as stated: a frame with an unknown message type is logged. The reader's
  \<^verbatim>\<open>switch\<close> has no default case: such a frame leaves the whole state, the log
  included, as it was.
\<close>

theorem unknown_type_not_logged_counterexample:
  "sample_unmarshal ''ping'' = Some \<lparr>Type = ''ping'', WSChatID = 5, Payload = []\<rparr>
   \<and> ReadPump_frame sample_unmarshal 0 ''ping'' one_in_room_5 = Inr one_in_room_5
   \<and> logs one_in_room_5 = [LogConnected 1, LogJoined 1 5]"
  by (simp add: sample_unmarshal_def ReadPump_frame_def one_in_room_5_def hub_defs)

text \<open>
  C9, amended. A frame that \<^verbatim>\<open>json.Unmarshal\<close> rejects adds one entry to the log and
  changes nothing else; a frame that decodes to a type other than the five the reader
  knows changes nothing at all, and is not logged. In both cases the reader does not
  leave its loop: it goes on with the frames that follow, from that state.
\<close>

theorem malformed_frame_is_skipped:
  "(unmarshal message = None \<longrightarrow>
      ReadPump_frame unmarshal c message s = Inr (s\<lparr>logs := logs s @ [LogUnmarshalError]\<rparr>)
      \<and> ReadPump unmarshal c (ReadFrame message # rest) s =
          ReadPump unmarshal c rest (s\<lparr>logs := logs s @ [LogUnmarshalError]\<rparr>))
   \<and> (unmarshal message = Some wsMsg
        \<and> Type wsMsg \<notin> {''join_chat'', ''leave_chat'', ''typing'', ''message_delivered'',
                          ''message_read''} \<longrightarrow>
      ReadPump_frame unmarshal c message s = Inr s
      \<and> ReadPump unmarshal c (ReadFrame message # rest) s = ReadPump unmarshal c rest s)"
  by (simp add: ReadPump_frame_def)

theorem malformed_frame_is_skipped_witness:
  "sample_unmarshal ''garbage'' = None
   \<and> ReadPump sample_unmarshal 0 [ReadFrame ''garbage'', ReadFrame ''join''] one_in_room_5 =
       ReadPump sample_unmarshal 0 [ReadFrame ''join'']
         (one_in_room_5\<lparr>logs := logs one_in_room_5 @ [LogUnmarshalError]\<rparr>)
   \<and> sample_unmarshal ''ping'' = Some \<lparr>Type = ''ping'', WSChatID = 5, Payload = []\<rparr>
   \<and> ReadPump sample_unmarshal 0 [ReadFrame ''ping'', ReadFrame ''join''] one_in_room_5 =
       ReadPump sample_unmarshal 0 [ReadFrame ''join''] one_in_room_5
   \<and> ReadPump sample_unmarshal 0 [ReadFrame ''join''] one_in_room_5 =
       Inr (Reading, JoinChatRoom 0 7 one_in_room_5)"
proof -
  have g: "sample_unmarshal ''garbage'' = None"
    and p: "sample_unmarshal ''ping'' = Some \<lparr>Type = ''ping'', WSChatID = 5, Payload = []\<rparr>"
    and k: "Type \<lparr>Type = ''ping'', WSChatID = 5, Payload = []\<rparr> \<notin>
       {''join_chat'', ''leave_chat'', ''typing'', ''message_delivered'', ''message_read''}"
    by (simp_all add: sample_unmarshal_def)
  from malformed_frame_is_skipped
         [of sample_unmarshal "''garbage''" 0 one_in_room_5 "[ReadFrame ''join'']"] g
  have a: "ReadPump sample_unmarshal 0 [ReadFrame ''garbage'', ReadFrame ''join''] one_in_room_5 =
       ReadPump sample_unmarshal 0 [ReadFrame ''join'']
         (one_in_room_5\<lparr>logs := logs one_in_room_5 @ [LogUnmarshalError]\<rparr>)"
    by blast
  from malformed_frame_is_skipped
         [of sample_unmarshal "''ping''" 0 one_in_room_5 "[ReadFrame ''join'']"
            "\<lparr>Type = ''ping'', WSChatID = 5, Payload = []\<rparr>"] p k
  have b: "ReadPump sample_unmarshal 0 [ReadFrame ''ping'', ReadFrame ''join''] one_in_room_5 =
       ReadPump sample_unmarshal 0 [ReadFrame ''join''] one_in_room_5"
    by blast
  have c: "ReadPump sample_unmarshal 0 [ReadFrame ''join''] one_in_room_5 =
       Inr (Reading, JoinChatRoom 0 7 one_in_room_5)"
    by (simp add: sample_unmarshal_def ReadPump_frame_def)
  from g a p b c show ?thesis by blast
qed

subsection \<open>C10\<close>



end
